theory Spec2Isabelle
  imports Main "HOL-Library.Word"
begin

unbundle bit_operations_syntax

section \<open>KSUID: a 20-byte sortable identifier and its base-62 text form\<close>

text \<open>
  A shallow embedding of \<^verbatim>\<open>ksuid.go\<close>. A Go \<^verbatim>\<open>byte\<close> is an \<open>8 word\<close>, a
  \<^verbatim>\<open>[]byte\<close> is a list of bytes, a Go \<^verbatim>\<open>string\<close> (a sequence of bytes) is a
  \<open>string\<close>. The array type \<^verbatim>\<open>KSUID [20]byte\<close> is a byte list; the theorems about
  values of that type carry the length 20 as a hypothesis.
  A Go result \<^verbatim>\<open>(KSUID, error)\<close> is a pair whose second component is \<open>None\<close> for
  the \<^verbatim>\<open>nil\<close> error. A call that may panic has an \<open>outcome\<close>.
\<close>

subsection \<open>Constants, types and errors\<close>

type_synonym byte = "8 word"

type_synonym KSUID = "byte list"

definition epochStamp :: "64 word" where
  "epochStamp = 1400000000"

definition timestampLengthInBytes :: nat where
  "timestampLengthInBytes = 4"

definition payloadLengthInBytes :: nat where
  "payloadLengthInBytes = 16"

definition byteLength :: nat where
  "byteLength = timestampLengthInBytes + payloadLengthInBytes"

definition stringEncodedLength :: nat where
  "stringEncodedLength = 27"

definition maxStringEncoded :: string where
  "maxStringEncoded = ''aWgEPTl1tmebfsQzFP4bxwgy80V''"

text \<open>
  The errors of \<^verbatim>\<open>io.ReadFull\<close>: end of input before any byte, end of input after some
  bytes, or the error of the reader itself.
\<close>

datatype io_error = EOF | ErrUnexpectedEOF | ReaderError string

text \<open>
  The error values of the package: the three package variables, the error that
  \<^verbatim>\<open>Scan\<close> builds for a type it does not support, and an error passed on from the
  entropy source.
\<close>

datatype error = errSize | errStrSize | errPayloadSize | errScanType | errIO io_error

datatype 'a outcome = Panicked | Returned 'a

definition Nil_ksuid :: KSUID where
  "Nil_ksuid = replicate byteLength 0"

subsection \<open>Slices, strings and the standard library\<close>

text \<open>
  \<^verbatim>\<open>copy(dst, src)\<close> overwrites the first \<open>min (length dst) (length src)\<close> elements
  of \<open>dst\<close>; where the two overlap it reads the source as it was before the call.
\<close>

definition go_copy :: "'a list \<Rightarrow> 'a list \<Rightarrow> 'a list" where
  "go_copy dst src = take (length dst) src @ drop (length src) dst"

text \<open>\<^verbatim>\<open>copy(b[off:], src)\<close>: the elements of \<open>b\<close> before \<open>off\<close> are kept.\<close>

definition copy_at :: "'a list \<Rightarrow> nat \<Rightarrow> 'a list \<Rightarrow> 'a list" where
  "copy_at b off src = take off b @ go_copy (drop off b) src"

text \<open>
  \<^verbatim>\<open>append(arr[:0], xs...)\<close> seen from the array \<open>arr\<close>: the elements are written into
  the array when they fit its capacity; otherwise \<^verbatim>\<open>append\<close> allocates a new array
  and \<open>arr\<close> is left as it was.
\<close>

definition append_in_place :: "'a list \<Rightarrow> 'a list \<Rightarrow> 'a list" where
  "append_in_place arr xs = (if length xs \<le> length arr then go_copy arr xs else arr)"

text \<open>The conversions \<^verbatim>\<open>[]byte(s)\<close> and \<^verbatim>\<open>string(b)\<close>.\<close>

definition byte_of_char :: "char \<Rightarrow> byte" where
  "byte_of_char c = of_char c"

definition char_of_byte :: "byte \<Rightarrow> char" where
  "char_of_byte b = char_of (unat b)"

definition bytes_of_string :: "string \<Rightarrow> byte list" where
  "bytes_of_string s = map byte_of_char s"

definition string_of_bytes :: "byte list \<Rightarrow> string" where
  "string_of_bytes b = map char_of_byte b"

text \<open>
  \<^verbatim>\<open>binary.BigEndian.Uint32\<close> and \<^verbatim>\<open>binary.BigEndian.PutUint32\<close>. Both panic on a
  slice shorter than four bytes; the package only calls them on
  \<^verbatim>\<open>i[:timestampLengthInBytes]\<close>.
\<close>

definition BigEndian_Uint32 :: "byte list \<Rightarrow> 32 word" where
  "BigEndian_Uint32 b =
     ucast (b ! 3) OR push_bit 8 (ucast (b ! 2)) OR push_bit 16 (ucast (b ! 1))
       OR push_bit 24 (ucast (b ! 0))"

definition BigEndian_PutUint32 :: "byte list \<Rightarrow> 32 word \<Rightarrow> byte list" where
  "BigEndian_PutUint32 b v =
     b[0 := ucast (drop_bit 24 v), 1 := ucast (drop_bit 16 v),
       2 := ucast (drop_bit 8 v), 3 := ucast v]"

text \<open>
  \<^verbatim>\<open>bytes.Compare\<close>: the three-way lexicographic comparison of two byte slices.
  Go compares strings the same way, byte by byte.
\<close>

fun bytes_Compare :: "byte list \<Rightarrow> byte list \<Rightarrow> int" where
  "bytes_Compare [] [] = 0"
| "bytes_Compare [] (y # ys) = - 1"
| "bytes_Compare (x # xs) [] = 1"
| "bytes_Compare (x # xs) (y # ys) =
     (if x < y then - 1 else if y < x then 1 else bytes_Compare xs ys)"

definition strings_Compare :: "string \<Rightarrow> string \<Rightarrow> int" where
  "strings_Compare s t = bytes_Compare (bytes_of_string s) (bytes_of_string t)"

text \<open>
  A \<^verbatim>\<open>time.Time\<close>, as far as the package looks at it: the whole seconds since the
  Unix epoch (the \<^verbatim>\<open>int64\<close> that \<^verbatim>\<open>t.Unix()\<close> returns) and the nanoseconds within
  the second; its location and monotonic clock reading are left out.
  \<^verbatim>\<open>time.Unix(sec, nsec)\<close> builds the instant from the two numbers, and
  \<open>truncate_to_second\<close> is \<^verbatim>\<open>t.Truncate(time.Second)\<close>.
\<close>

record Time =
  seconds :: "64 word"
  nanos :: nat

definition Unix :: "Time \<Rightarrow> 64 word" where
  "Unix t = seconds t"

definition time_Unix :: "64 word \<Rightarrow> nat \<Rightarrow> Time" where
  "time_Unix sec nsec = \<lparr>seconds = sec, nanos = nsec\<rparr>"

definition truncate_to_second :: "Time \<Rightarrow> Time" where
  "truncate_to_second t = t\<lparr>nanos := 0\<rparr>"

text \<open>
  An \<^verbatim>\<open>io.Reader\<close>: the bytes it still delivers and the error it reports once they
  are used up. \<^verbatim>\<open>io.ReadFull\<close> fills the whole buffer or reports an error; it returns
  the buffer, the error and the reader after the call.
\<close>

datatype reader = Reader (pending: "byte list") (failure: io_error)

definition io_ReadFull :: "reader \<Rightarrow> byte list \<Rightarrow> (byte list \<times> io_error option) \<times> reader" where
  "io_ReadFull r buf =
     (if length buf \<le> length (pending r)
      then ((take (length buf) (pending r), None),
            Reader (drop (length buf) (pending r)) (failure r))
      else ((go_copy buf (pending r),
             Some (if failure r = EOF \<and> pending r \<noteq> [] then ErrUnexpectedEOF else failure r)),
            Reader [] (failure r)))"

subsection \<open>The base-62 codec\<close>

text \<open>
  The codec, file \<^verbatim>\<open>base62.go\<close> of the package, is not among the sources: only the
  calls \<^verbatim>\<open>appendEncodeBase62(b, i[:])\<close> in \<^verbatim>\<open>Append\<close> and
  \<^verbatim>\<open>appendDecodeBase62(dst[:0], src[:])\<close> in \<^verbatim>\<open>Parse\<close> are. The definitions of this
  subsection follow section 4.1 of the specification.
\<close>

text \<open>
  Modelled from the spec: the big number of a digit string, most significant digit first,
  by repeated multiply-by-the-base-and-add (the arithmetic of the missing codec, on
  numbers of any size).
\<close>

definition radix_value :: "nat \<Rightarrow> nat list \<Rightarrow> nat" where
  "radix_value base ds = foldl (\<lambda>acc d. acc * base + d) 0 ds"

text \<open>
  Modelled from the spec: the digits of a big number by repeated division by the base,
  from the least significant digit to the most significant one (the arithmetic of the
  missing codec). The number 0 has no digit.
\<close>

function radix_digits :: "nat \<Rightarrow> nat \<Rightarrow> nat list" where
  "radix_digits base n =
     (if n = 0 \<or> base < 2 then [] else n mod base # radix_digits base (n div base))"
  by pat_completeness auto
termination
  by (relation "measure snd") auto

text \<open>
  Modelled from the spec: the alphabet of the missing codec, the digit values 0 to 61 in
  this order.
\<close>

definition base62Characters :: string where
  "base62Characters = ''0123456789ABCDEFGHIJKLMNOPQRSTUVWXYZabcdefghijklmnopqrstuvwxyz''"

text \<open>Modelled from the spec: the character of a digit value of the missing codec, as a byte.\<close>

definition base62_digit :: "nat \<Rightarrow> byte" where
  "base62_digit d = byte_of_char (base62Characters ! d)"

fun index_of :: "'a \<Rightarrow> 'a list \<Rightarrow> nat option" where
  "index_of c [] = None"
| "index_of c (x # xs) = (if x = c then Some 0 else map_option Suc (index_of c xs))"

text \<open>
  Modelled from the spec: the digit value of a character of the missing codec, its place
  in the alphabet; a character outside the alphabet has none.
\<close>

definition base62Value :: "byte \<Rightarrow> nat option" where
  "base62Value b = index_of (char_of_byte b) base62Characters"

text \<open>
  Modelled from the spec: the digit values of a string of the missing codec; none when a
  character is outside the alphabet.
\<close>

fun base62Values :: "byte list \<Rightarrow> nat list option" where
  "base62Values [] = Some []"
| "base62Values (b # bs) =
     (case base62Value b of
        None \<Rightarrow> None
      | Some d \<Rightarrow> (case base62Values bs of None \<Rightarrow> None | Some ds \<Rightarrow> Some (d # ds)))"

text \<open>
  Modelled from the spec: \<^verbatim>\<open>appendEncodeBase62\<close> is called by \<^verbatim>\<open>Append\<close> and is not in
  the source file. Section 4.1: the input is a base-256 big number, divided by 62 again
  and again to give the base-62 digits from the least significant one, which are then
  reversed and written with the alphabet \<open>base62Characters\<close>. The result is appended to
  \<open>dst\<close>. The left padding to 27 characters is done by the caller, \<^verbatim>\<open>Append\<close>.
\<close>

definition appendEncodeBase62 :: "byte list \<Rightarrow> byte list \<Rightarrow> byte list" where
  "appendEncodeBase62 dst src =
     dst @ map base62_digit (rev (radix_digits 62 (radix_value 256 (map unat src))))"

text \<open>
  Modelled from the spec: the result of the missing decoder, the bytes it returns or the
  \<open>InvalidCharacter\<close> condition of sections 4.1 and 7.
\<close>

datatype decode_result = InvalidCharacter | Decoded "byte list"

text \<open>
  Modelled from the spec: \<^verbatim>\<open>appendDecodeBase62\<close> is called by \<^verbatim>\<open>Parse\<close> and is not in the
  source file. Section 4.1: the characters are read as base-62 digits and accumulated by
  multiply-by-62-and-add into a big number, whose bytes are produced most significant
  first and appended to \<open>dst\<close>; a character outside the alphabet is the
  \<open>InvalidCharacter\<close> condition. The left padding to 20 bytes is done by the caller,
  \<^verbatim>\<open>Parse\<close>.
\<close>

definition appendDecodeBase62 :: "byte list \<Rightarrow> byte list \<Rightarrow> decode_result" where
  "appendDecodeBase62 dst src =
     (case base62Values src of
        None \<Rightarrow> InvalidCharacter
      | Some ds \<Rightarrow> Decoded (dst @ map of_nat (rev (radix_digits 256 (radix_value 62 ds)))))"

subsection \<open>The identifier\<close>

text \<open>The array \<^verbatim>\<open>zeroes\<close> of \<^verbatim>\<open>Append\<close>: 27 times the character \<open>0\<close>.\<close>

definition zeroes :: "byte list" where
  "zeroes = replicate 27 (byte_of_char CHR ''0'')"

text \<open>
  \<^verbatim>\<open>Append\<close>. The first branch of the source only grows the capacity of \<open>b\<close> and keeps
  its contents. \<open>pad\<close> is a Go \<^verbatim>\<open>int\<close> and may be negative.
\<close>

definition Append :: "KSUID \<Rightarrow> byte list \<Rightarrow> byte list" where
  "Append i b =
     (let off = length b;
          b1 = appendEncodeBase62 b i;
          pad = int stringEncodedLength - (int (length b1) - int off)
      in if pad > 0
         then (let b2 = b1 @ take (nat pad) zeroes;
                   b3 = copy_at b2 (off + nat pad) (drop off b2)
               in copy_at b3 off (take (nat pad) zeroes))
         else b1)"

definition Timestamp :: "KSUID \<Rightarrow> 32 word" where
  "Timestamp i = BigEndian_Uint32 (take timestampLengthInBytes i)"

definition Payload :: "KSUID \<Rightarrow> byte list" where
  "Payload i = drop timestampLengthInBytes i"

definition String :: "KSUID \<Rightarrow> string" where
  "String i = string_of_bytes (Append i [])"

definition Bytes :: "KSUID \<Rightarrow> byte list" where
  "Bytes i = i"

definition IsNil :: "KSUID \<Rightarrow> bool" where
  "IsNil i = (i = Nil_ksuid)"

definition timeToCorrectedUTCTimestamp :: "Time \<Rightarrow> 32 word" where
  "timeToCorrectedUTCTimestamp t = ucast (Unix t - epochStamp)"

definition correctedUTCTimestampToTime :: "32 word \<Rightarrow> Time" where
  "correctedUTCTimestampToTime ts = time_Unix (ucast ts + epochStamp) 0"

text \<open>The method \<^verbatim>\<open>Time\<close>; the name \<open>Time\<close> is the type here.\<close>

definition Time_of :: "KSUID \<Rightarrow> Time" where
  "Time_of i = correctedUTCTimestampToTime (Timestamp i)"

definition FromBytes :: "byte list \<Rightarrow> KSUID \<times> error option" where
  "FromBytes b =
     (let ksuid = replicate byteLength 0
      in if length b \<noteq> byteLength then (Nil_ksuid, Some errSize)
         else (go_copy ksuid b, None))"

definition FromParts :: "Time \<Rightarrow> byte list \<Rightarrow> KSUID \<times> error option" where
  "FromParts t payload =
     (if length payload \<noteq> payloadLengthInBytes then (Nil_ksuid, Some errPayloadSize)
      else (let ksuid = replicate byteLength 0;
                ts = timeToCorrectedUTCTimestamp t;
                ksuid1 = BigEndian_PutUint32 (take timestampLengthInBytes ksuid) ts
                           @ drop timestampLengthInBytes ksuid;
                ksuid2 = copy_at ksuid1 timestampLengthInBytes payload
            in (ksuid2, None)))"

text \<open>
  \<^verbatim>\<open>Parse\<close>, with the decoder it calls as a parameter. The decoder appends to
  \<^verbatim>\<open>dst[:0]\<close>, a slice of length 0 and capacity 20 over the array \<open>dst\<close>, and
  \<^verbatim>\<open>Parse\<close> reads the array afterwards. The decoder returns one value, a byte slice:
  \<^verbatim>\<open>Parse\<close> has no error to receive from it, so a decoder that fails can only panic.
\<close>

definition Parse_with ::
  "(byte list \<Rightarrow> byte list \<Rightarrow> decode_result) \<Rightarrow> string \<Rightarrow> (KSUID \<times> error option) outcome" where
  "Parse_with decoder s =
     (if length s \<noteq> stringEncodedLength then Returned (Nil_ksuid, Some errStrSize)
      else (let src = go_copy (replicate stringEncodedLength 0) (bytes_of_string s);
                dst = replicate byteLength 0
            in case decoder [] src of
                 InvalidCharacter \<Rightarrow> Panicked
               | Decoded decoded \<Rightarrow>
                   (let dst1 = append_in_place dst decoded;
                        pad = int byteLength - int (length decoded);
                        dst3 = (if pad > 0
                                then (let dst2 = copy_at dst1 (nat pad) dst1
                                      in go_copy dst2 (take (nat pad) (replicate byteLength 0)))
                                else dst1)
                    in Returned (FromBytes dst3))))"

definition Parse :: "string \<Rightarrow> (KSUID \<times> error option) outcome" where
  "Parse s = Parse_with appendDecodeBase62 s"

definition Compare :: "KSUID \<Rightarrow> KSUID \<Rightarrow> int" where
  "Compare a b = bytes_Compare a b"

text \<open>A call that comes back with a non-\<^verbatim>\<open>nil\<close> error.\<close>

definition returns_error :: "(KSUID \<times> error option) outcome \<Rightarrow> bool" where
  "returns_error r = (case r of Panicked \<Rightarrow> False | Returned (k, e) \<Rightarrow> e \<noteq> None)"

text \<open>
  \<^verbatim>\<open>Parse\<close> followed by \<^verbatim>\<open>String\<close>: the text form of the identifier that
  \<^verbatim>\<open>Parse\<close> returns, when it returns one without error.
\<close>

definition String_of_Parse :: "string \<Rightarrow> string option" where
  "String_of_Parse s =
     (case Parse s of
        Panicked \<Rightarrow> None
      | Returned (k, Some err) \<Rightarrow> None
      | Returned (k, None) \<Rightarrow> Some (String k))"

subsection \<open>Marshalling and the database adapter\<close>

text \<open>
  The methods on \<^verbatim>\<open>*KSUID\<close> take the receiver's value and return its value after the
  call, next to the error.
\<close>

definition UnmarshalText :: "KSUID \<Rightarrow> byte list \<Rightarrow> (KSUID \<times> error option) outcome" where
  "UnmarshalText i b =
     (case Parse (string_of_bytes b) of
        Panicked \<Rightarrow> Panicked
      | Returned (ident, Some err) \<Rightarrow> Returned (i, Some err)
      | Returned (ident, None) \<Rightarrow> Returned (ident, None))"

definition UnmarshalBinary :: "KSUID \<Rightarrow> byte list \<Rightarrow> KSUID \<times> error option" where
  "UnmarshalBinary i b =
     (case FromBytes b of
        (ident, Some err) \<Rightarrow> (i, Some err)
      | (ident, None) \<Rightarrow> (ident, None))"

definition scan :: "KSUID \<Rightarrow> byte list \<Rightarrow> (KSUID \<times> error option) outcome" where
  "scan i b =
     (if length b = 0 then Returned (Nil_ksuid, None)
      else if length b = byteLength then Returned (UnmarshalBinary i b)
      else if length b = stringEncodedLength then UnmarshalText i b
      else Returned (i, Some errSize))"

text \<open>The dynamic type of the \<^verbatim>\<open>interface{}\<close> argument of \<^verbatim>\<open>Scan\<close>.\<close>

datatype scan_src = SrcNil | SrcBytes "byte list" | SrcString string | SrcOther

fun Scan :: "KSUID \<Rightarrow> scan_src \<Rightarrow> (KSUID \<times> error option) outcome" where
  "Scan i SrcNil = scan i []"
| "Scan i (SrcBytes v) = scan i v"
| "Scan i (SrcString v) = scan i (bytes_of_string v)"
| "Scan i SrcOther = Returned (i, Some errScanType)"

subsection \<open>Generation\<close>

text \<open>
  The state the generator reads: the entropy source \<^verbatim>\<open>rander\<close> and the clock behind
  \<^verbatim>\<open>time.Now()\<close>. The buffer taken from \<^verbatim>\<open>payloadPool\<close> is 16 bytes of any content,
  here \<open>pool_buffer\<close>.
\<close>

record world =
  rander :: reader
  now :: Time
  pool_buffer :: "byte list"

definition NewRandom :: "world \<Rightarrow> (KSUID \<times> error option) \<times> world" where
  "NewRandom w =
     (let payload = pool_buffer w;
          ((payload1, err), r) = io_ReadFull (rander w) payload;
          w1 = w\<lparr>rander := r\<rparr>
      in case err of
           Some e \<Rightarrow> ((Nil_ksuid, Some (errIO e)), w1)
         | None \<Rightarrow>
             (case FromParts (now w1) payload1 of
                (ksuid, Some e) \<Rightarrow> ((Nil_ksuid, Some e), w1)
              | (ksuid, None) \<Rightarrow> ((ksuid, None), w1\<lparr>pool_buffer := payload1\<rparr>)))"

definition New :: "world \<Rightarrow> KSUID outcome \<times> world" where
  "New w =
     (case NewRandom w of
        ((ksuid, Some err), w1) \<Rightarrow> (Panicked, w1)
      | ((ksuid, None), w1) \<Rightarrow> (Returned ksuid, w1))"

subsection \<open>Auxiliary notions of the proofs\<close>

text \<open>
  The digits of a number, most significant first and padded with zero digits to a given
  width, and the three-way lexicographic comparison of two lists of numbers.
\<close>

definition radix_padded :: "nat \<Rightarrow> nat \<Rightarrow> nat \<Rightarrow> nat list" where
  "radix_padded base k n =
     replicate (k - length (radix_digits base n)) 0 @ rev (radix_digits base n)"

fun nat_Compare :: "nat list \<Rightarrow> nat list \<Rightarrow> int" where
  "nat_Compare [] [] = 0"
| "nat_Compare [] (y # ys) = - 1"
| "nat_Compare (x # xs) [] = 1"
| "nat_Compare (x # xs) (y # ys) =
     (if x < y then - 1 else if y < x then 1 else nat_Compare xs ys)"

section \<open>Length validation and the nil identifier\<close>

lemmas ksuid_sizes = byteLength_def timestampLengthInBytes_def payloadLengthInBytes_def
  stringEncodedLength_def

lemma length_go_copy [simp]: "length (go_copy dst src) = length dst"
  by (simp add: go_copy_def)

lemma go_copy_same_length [simp]: "length src = length dst \<Longrightarrow> go_copy dst src = src"
  by (simp add: go_copy_def)

lemma length_Nil_ksuid [simp]: "length Nil_ksuid = byteLength"
  by (simp add: Nil_ksuid_def)

lemma FromBytes_ok: "length b = byteLength \<Longrightarrow> FromBytes b = (b, None)"
  by (simp add: FromBytes_def)

text \<open>
  C6. \<^verbatim>\<open>Parse\<close> returns \<^verbatim>\<open>(Nil, errStrSize)\<close> for every string whose length is not
  27, \<^verbatim>\<open>FromBytes\<close> returns \<^verbatim>\<open>(Nil, errSize)\<close> for every slice whose length is not
  20, and \<^verbatim>\<open>FromParts\<close> returns \<^verbatim>\<open>(Nil, errPayloadSize)\<close> for every payload whose
  length is not 16.
\<close>

theorem length_validation:
  "(length s \<noteq> 27 \<longrightarrow> Parse s = Returned (Nil_ksuid, Some errStrSize)) \<and>
   (length b \<noteq> 20 \<longrightarrow> FromBytes b = (Nil_ksuid, Some errSize)) \<and>
   (length p \<noteq> 16 \<longrightarrow> FromParts t p = (Nil_ksuid, Some errPayloadSize))"
  by (simp add: Parse_def Parse_with_def FromBytes_def FromParts_def stringEncodedLength_def
      byteLength_def timestampLengthInBytes_def payloadLengthInBytes_def)

theorem length_validation_witness:
  "length ''short'' \<noteq> 27 \<and> Parse ''short'' = Returned (Nil_ksuid, Some errStrSize) \<and>
   length (replicate 19 (0::byte)) \<noteq> 20 \<and>
   FromBytes (replicate 19 0) = (Nil_ksuid, Some errSize) \<and>
   length [1::byte, 2, 3] \<noteq> 16 \<and>
   FromParts \<lparr>seconds = 1500000000, nanos = 0\<rparr> [1, 2, 3] = (Nil_ksuid, Some errPayloadSize)"
  using length_validation [of "''short''" "replicate 19 0" "[1, 2, 3]"
      "\<lparr>seconds = 1500000000, nanos = 0\<rparr>"]
  by simp

text \<open>
  C8. \<^verbatim>\<open>FromBytes\<close> of 20 zero bytes succeeds with an identifier for which
  \<^verbatim>\<open>IsNil\<close> is true, and \<^verbatim>\<open>IsNil\<close> holds of an identifier exactly when all its 20
  bytes are zero.
\<close>

theorem nil_identity:
  "FromBytes (replicate 20 0) = (Nil_ksuid, None) \<and> IsNil (fst (FromBytes (replicate 20 0))) \<and>
   (length k = byteLength \<longrightarrow> (IsNil k \<longleftrightarrow> (\<forall>j < 20. k ! j = 0)))"
proof -
  have "FromBytes (replicate 20 0) = (Nil_ksuid, None)"
    by (simp add: FromBytes_ok byteLength_def timestampLengthInBytes_def
        payloadLengthInBytes_def Nil_ksuid_def)
  moreover have "IsNil k \<longleftrightarrow> (\<forall>j < 20. k ! j = 0)" if "length k = byteLength"
    using that
    by (auto simp: IsNil_def Nil_ksuid_def byteLength_def timestampLengthInBytes_def
        payloadLengthInBytes_def list_eq_iff_nth_eq)
  ultimately show ?thesis
    by (simp add: IsNil_def)
qed

theorem nil_identity_witness:
  "length (replicate 19 0 @ [1::byte]) = byteLength \<and> \<not> IsNil (replicate 19 0 @ [1]) \<and>
   \<not> (\<forall>j < 20. (replicate 19 0 @ [1::byte]) ! j = 0)"
proof -
  have len: "length (replicate 19 0 @ [1::byte]) = byteLength"
    by (simp add: byteLength_def timestampLengthInBytes_def payloadLengthInBytes_def)
  have "(replicate 19 0 @ [1::byte]) ! 19 \<noteq> 0"
    by (simp add: nth_append)
  moreover have "(19::nat) < 20"
    by simp
  ultimately have "\<not> (\<forall>j < 20. (replicate 19 0 @ [1::byte]) ! j = 0)"
    by blast
  with nil_identity [of "replicate 19 0 @ [1]"] len show ?thesis
    by blast
qed

section \<open>Timestamp and payload\<close>

lemma Uint32_PutUint32:
  "length b = 4 \<Longrightarrow> BigEndian_Uint32 (BigEndian_PutUint32 b v) = v"
  unfolding BigEndian_Uint32_def BigEndian_PutUint32_def
  apply simp
  apply (rule bit_word_eqI)
  apply (auto simp add: bit_simps not_less)
  subgoal for n by (cases "24 \<le> n") auto
  done

lemma list_of_length_4:
  "length (b :: 'a list) = 4 \<Longrightarrow> \<exists>b0 b1 b2 b3. b = [b0, b1, b2, b3]"
  by (auto simp: numeral_eq_Suc length_Suc_conv)

lemma PutUint32_Uint32_aux:
  "BigEndian_PutUint32 [c0, c1, c2, c3] (BigEndian_Uint32 [b0, b1, b2, b3]) = [b0, b1, b2, b3]"
  unfolding BigEndian_Uint32_def BigEndian_PutUint32_def
  apply simp
  apply (intro conjI; rule bit_word_eqI)
  apply (auto simp add: bit_simps not_less dest: bit_imp_le_length)
  done

lemma PutUint32_Uint32:
  assumes "length b = 4" "length c = 4"
  shows "BigEndian_PutUint32 c (BigEndian_Uint32 b) = b"
proof -
  from assms(1) obtain b0 b1 b2 b3 where b: "b = [b0, b1, b2, b3]"
    using list_of_length_4 by blast
  from assms(2) obtain c0 c1 c2 c3 where c: "c = [c0, c1, c2, c3]"
    using list_of_length_4 by blast
  show ?thesis
    unfolding b c by (rule PutUint32_Uint32_aux)
qed

lemma length_PutUint32 [simp]: "length (BigEndian_PutUint32 b v) = length b"
  by (simp add: BigEndian_PutUint32_def)

lemma FromParts_ok:
  assumes "length p = payloadLengthInBytes"
  shows "FromParts t p =
    (BigEndian_PutUint32 (replicate 4 0) (timeToCorrectedUTCTimestamp t) @ p, None)"
  using assms by (simp add: FromParts_def Let_def copy_at_def ksuid_sizes)

lemma Timestamp_FromParts:
  assumes "length p = payloadLengthInBytes"
  shows "Timestamp (fst (FromParts t p)) = timeToCorrectedUTCTimestamp t"
  by (simp add: FromParts_ok [OF assms] Timestamp_def timestampLengthInBytes_def
      Uint32_PutUint32)

lemma ts_roundtrip: "timeToCorrectedUTCTimestamp (correctedUTCTimestampToTime ts) = ts"
  unfolding timeToCorrectedUTCTimestamp_def correctedUTCTimestampToTime_def Unix_def time_Unix_def
  by (simp add: ucast_up_ucast_id is_up)

lemma mod_64_32: "((a::int) mod 2 ^ 64) mod 2 ^ 32 = a mod 2 ^ 32"
proof (rule mod_mod_cancel)
  show "(2::int) ^ 32 dvd 2 ^ 64"
    by (rule le_imp_power_dvd) simp
qed

lemma ts_value: "uint (timeToCorrectedUTCTimestamp t) = (sint (Unix t) - 1400000000) mod 2 ^ 32"
proof -
  let ?s = "sint (Unix t)"
  have "uint (ucast (Unix t - epochStamp) :: 32 word) = uint (Unix t - epochStamp) mod 2 ^ 32"
    by (simp add: unsigned_ucast_eq take_bit_eq_mod)
  also have "uint (Unix t - epochStamp) = (uint (Unix t) - 1400000000) mod 2 ^ 64"
    by (simp add: uint_word_ariths epochStamp_def)
  also have "uint (Unix t) = ?s mod 2 ^ 64"
    by (simp add: uint_sint take_bit_eq_mod)
  also have "((?s mod 2 ^ 64 - 1400000000) mod 2 ^ 64) mod 2 ^ 32
      = (?s mod 2 ^ 64 - 1400000000) mod 2 ^ 32"
    by (rule mod_64_32)
  also have "\<dots> = ((?s mod 2 ^ 64) mod 2 ^ 32 - 1400000000) mod 2 ^ 32"
    by (rule mod_diff_left_eq [symmetric])
  also have "\<dots> = (?s mod 2 ^ 32 - 1400000000) mod 2 ^ 32"
    by (simp only: mod_64_32)
  also have "\<dots> = (?s - 1400000000) mod 2 ^ 32"
    by (rule mod_diff_left_eq)
  finally show ?thesis by (simp add: timeToCorrectedUTCTimestamp_def)
qed

lemma ucast_32_64_small:
  fixes d :: int
  assumes "0 \<le> d" "d < 2 ^ 32"
  shows "(ucast (ucast (word_of_int d :: 64 word) :: 32 word) :: 64 word) = word_of_int d"
proof -
  have "d < 2 ^ 64" using assms(2) by simp
  then have u64: "uint (word_of_int d :: 64 word) = d"
    using assms(1) by (simp add: uint_word_of_int take_bit_int_eq_self)
  have u32: "uint (word_of_int d :: 32 word) = d"
    using assms by (simp add: uint_word_of_int take_bit_int_eq_self)
  have "(ucast (word_of_int d :: 64 word) :: 32 word)
      = word_of_int (uint (word_of_int d :: 64 word))"
    by (rule ucast_eq)
  then have b: "(ucast (word_of_int d :: 64 word) :: 32 word) = word_of_int d"
    by (simp only: u64)
  have "(ucast (word_of_int d :: 32 word) :: 64 word)
      = word_of_int (uint (word_of_int d :: 32 word))"
    by (rule ucast_eq)
  then show ?thesis
    by (simp only: b u32)
qed

lemma seconds_recovered:
  fixes x :: "64 word"
  assumes "1400000000 \<le> sint x" "sint x < 1400000000 + 2 ^ 32"
  shows "ucast (ucast (x - epochStamp) :: 32 word) + epochStamp = x"
proof -
  define d where "d = sint x - 1400000000"
  have d: "0 \<le> d" "d < 2 ^ 32" using assms by (simp_all add: d_def)
  have e: "epochStamp = word_of_int 1400000000"
    by (simp add: epochStamp_def)
  have x: "x = word_of_int (d + 1400000000)"
    by (simp add: d_def)
  have a: "x - epochStamp = (word_of_int d :: 64 word)"
    by (subst x, subst e) (simp only: wi_hom_sub add_diff_cancel_right')
  have "(word_of_int d :: 64 word) + epochStamp = x"
    by (subst x, subst e) (simp only: wi_hom_add)
  then show ?thesis
    by (simp only: a ucast_32_64_small [OF d])
qed

lemma sint_corrected:
  fixes ts :: "32 word"
  shows "sint (ucast ts + epochStamp) = uint ts + 1400000000"
proof -
  have u: "uint ts < 2 ^ 32"
    using uint_bounded [of ts] by simp
  have a: "(ucast ts :: 64 word) = word_of_int (uint ts)"
    by (rule ucast_eq)
  have e: "epochStamp = word_of_int 1400000000"
    by (simp add: epochStamp_def)
  have "ucast ts + epochStamp = (word_of_int (uint ts + 1400000000) :: 64 word)"
    by (subst a, subst e) (simp only: wi_hom_add)
  moreover have "sint (word_of_int (uint ts + 1400000000) :: 64 word) = uint ts + 1400000000"
    using u by (simp only: sint_sbintrunc') (simp add: signed_take_bit_int_eq_self)
  ultimately show ?thesis
    by (simp only:)
qed

text \<open>
  The time read back from a timestamp is the time that went in, cut to whole seconds,
  exactly when the time lies in the window of \<open>2 ^ 32\<close> seconds that starts at the
  KSUID epoch.
\<close>

lemma time_recovered_iff:
  "correctedUTCTimestampToTime (timeToCorrectedUTCTimestamp t) = truncate_to_second t \<longleftrightarrow>
   1400000000 \<le> sint (Unix t) \<and> sint (Unix t) < 1400000000 + 2 ^ 32"
proof
  assume eq: "correctedUTCTimestampToTime (timeToCorrectedUTCTimestamp t) = truncate_to_second t"
  have "seconds (correctedUTCTimestampToTime (timeToCorrectedUTCTimestamp t))
      = seconds (truncate_to_second t)"
    by (simp only: eq)
  then have "ucast (timeToCorrectedUTCTimestamp t) + epochStamp = Unix t"
    by (simp add: correctedUTCTimestampToTime_def time_Unix_def truncate_to_second_def Unix_def)
  then have "sint (Unix t) = uint (timeToCorrectedUTCTimestamp t) + 1400000000"
    using sint_corrected [of "timeToCorrectedUTCTimestamp t"] by simp
  moreover have "0 \<le> uint (timeToCorrectedUTCTimestamp t)"
    by simp
  moreover have "uint (timeToCorrectedUTCTimestamp t) < 2 ^ 32"
    using uint_bounded [of "timeToCorrectedUTCTimestamp t"] by simp
  ultimately show "1400000000 \<le> sint (Unix t) \<and> sint (Unix t) < 1400000000 + 2 ^ 32"
    by simp
next
  assume "1400000000 \<le> sint (Unix t) \<and> sint (Unix t) < 1400000000 + 2 ^ 32"
  then have "ucast (ucast (Unix t - epochStamp) :: 32 word) + epochStamp = Unix t"
    using seconds_recovered [of "Unix t"] by simp
  then show "correctedUTCTimestampToTime (timeToCorrectedUTCTimestamp t) = truncate_to_second t"
    by (simp add: correctedUTCTimestampToTime_def timeToCorrectedUTCTimestamp_def time_Unix_def
        truncate_to_second_def Unix_def)
qed

text \<open>
  C4, as amended. For every time \<open>t\<close> and every 16-byte payload, \<^verbatim>\<open>FromParts\<close>
  succeeds and the \<^verbatim>\<open>Timestamp\<close> of the identifier is the Unix seconds of \<open>t\<close>
  minus 1400000000, reduced modulo \<open>2 ^ 32\<close>. Its \<^verbatim>\<open>Time\<close> is \<open>t\<close> cut to whole
  seconds exactly when \<open>t\<close> is at least 1400000000 and less than
  \<open>1400000000 + 2 ^ 32\<close> seconds after the Unix epoch.
\<close>

theorem timestamp_correction:
  assumes "length p = payloadLengthInBytes"
  shows "snd (FromParts t p) = None \<and>
    uint (Timestamp (fst (FromParts t p))) = (sint (Unix t) - 1400000000) mod 2 ^ 32 \<and>
    (Time_of (fst (FromParts t p)) = truncate_to_second t \<longleftrightarrow>
       1400000000 \<le> sint (Unix t) \<and> sint (Unix t) < 1400000000 + 2 ^ 32)"
  unfolding Time_of_def Timestamp_FromParts [OF assms] ts_value time_recovered_iff
  by (simp add: FromParts_ok [OF assms])

theorem timestamp_correction_witness:
  "length (replicate 16 (7::byte)) = payloadLengthInBytes \<and>
   snd (FromParts \<lparr>seconds = 1500000000, nanos = 123\<rparr> (replicate 16 7)) = None \<and>
   uint (Timestamp (fst (FromParts \<lparr>seconds = 1500000000, nanos = 123\<rparr> (replicate 16 7))))
     = 100000000 \<and>
   Time_of (fst (FromParts \<lparr>seconds = 1500000000, nanos = 123\<rparr> (replicate 16 7)))
     = \<lparr>seconds = 1500000000, nanos = 0\<rparr>"
proof -
  have len: "length (replicate 16 (7::byte)) = payloadLengthInBytes"
    by (simp add: payloadLengthInBytes_def)
  show ?thesis
    using timestamp_correction [OF len, of "\<lparr>seconds = 1500000000, nanos = 123\<rparr>"] len
    by (simp add: Unix_def truncate_to_second_def)
qed

text \<open>
  C4 as stated fails for a time before the KSUID epoch: for the Unix epoch itself,
  1 January 1970, the time read back is not the time that went in.
\<close>

theorem timestamp_correction_counterexample:
  "Time_of (fst (FromParts \<lparr>seconds = 0, nanos = 0\<rparr> (replicate 16 0)))
     \<noteq> truncate_to_second \<lparr>seconds = 0, nanos = 0\<rparr>"
proof -
  have len: "length (replicate 16 (0::byte)) = payloadLengthInBytes"
    by (simp add: payloadLengthInBytes_def)
  have "\<not> (correctedUTCTimestampToTime (timeToCorrectedUTCTimestamp \<lparr>seconds = 0, nanos = 0\<rparr>)
      = truncate_to_second \<lparr>seconds = 0, nanos = 0\<rparr>)"
    unfolding time_recovered_iff by (simp add: Unix_def)
  then show ?thesis
    unfolding Time_of_def Timestamp_FromParts [OF len] .
qed

text \<open>
  C10. For every identifier \<open>k\<close>, \<^verbatim>\<open>FromParts\<close> applied to the time and the payload
  of \<open>k\<close> returns \<open>k\<close> and no error.
\<close>

theorem decomposition_roundtrip:
  assumes "length k = byteLength"
  shows "FromParts (Time_of k) (Payload k) = (k, None)"
proof -
  have p: "length (Payload k) = payloadLengthInBytes"
    using assms by (simp add: Payload_def ksuid_sizes)
  have t: "length (take 4 k) = 4"
    using assms by (simp add: ksuid_sizes)
  have "BigEndian_PutUint32 (replicate 4 0) (timeToCorrectedUTCTimestamp (Time_of k)) = take 4 k"
    unfolding Time_of_def ts_roundtrip Timestamp_def timestampLengthInBytes_def
    by (rule PutUint32_Uint32 [OF t]) simp
  then have "FromParts (Time_of k) (Payload k) = (take 4 k @ drop 4 k, None)"
    unfolding FromParts_ok [OF p] by (simp add: Payload_def timestampLengthInBytes_def)
  then show ?thesis
    by simp
qed

theorem decomposition_roundtrip_witness:
  "length ([6, 105, 240, 1] @ replicate 16 (255::byte)) = byteLength \<and>
   FromParts (Time_of ([6, 105, 240, 1] @ replicate 16 255))
     (Payload ([6, 105, 240, 1] @ replicate 16 255))
     = ([6, 105, 240, 1] @ replicate 16 255, None)"
proof -
  have len: "length ([6, 105, 240, 1] @ replicate 16 (255::byte)) = byteLength"
    by (simp add: ksuid_sizes)
  show ?thesis
    using decomposition_roundtrip [OF len] len by simp
qed

section \<open>Parsing a string of 27 characters\<close>

text \<open>
  Whatever the decoder does, \<^verbatim>\<open>Parse\<close> of a 27-character string has two outcomes
  only: the decoder panics, or \<^verbatim>\<open>Parse\<close> returns 20 bytes and no error.
\<close>

lemma Parse_with_27:
  assumes "length s = stringEncodedLength"
  shows "Parse_with decoder s = Panicked \<or>
    (\<exists>k. Parse_with decoder s = Returned (k, None) \<and> length k = byteLength)"
proof (cases "decoder [] (go_copy (replicate stringEncodedLength 0) (bytes_of_string s))")
  case InvalidCharacter
  then show ?thesis
    using assms by (simp add: Parse_with_def Let_def)
next
  case (Decoded decoded)
  define dst1 :: "byte list" where "dst1 = append_in_place (replicate byteLength 0) decoded"
  define pad where "pad = int byteLength - int (length decoded)"
  define dst3 where "dst3 = (if pad > 0
      then go_copy (copy_at dst1 (nat pad) dst1) (take (nat pad) (replicate byteLength 0))
      else dst1)"
  have l1: "length dst1 = byteLength"
    by (simp add: dst1_def append_in_place_def)
  have "length (copy_at dst1 (nat pad) dst1) = byteLength" if "pad > 0"
    using that l1 by (simp add: copy_at_def pad_def)
  then have l3: "length dst3 = byteLength"
    using l1 by (simp add: dst3_def)
  have "Parse_with decoder s = Returned (FromBytes dst3)"
    using assms Decoded by (simp add: Parse_with_def Let_def dst3_def pad_def dst1_def)
  then show ?thesis
    using l3 by (simp add: FromBytes_ok)
qed

section \<open>The database adapter\<close>

text \<open>
  C7. \<^verbatim>\<open>Scan\<close> of SQL \<^verbatim>\<open>nil\<close> or of an input of length 0 sets the receiver to
  \<^verbatim>\<open>Nil\<close> and succeeds; of an input of length 20 it is \<^verbatim>\<open>UnmarshalBinary\<close>; of an
  input of length 27 it is \<^verbatim>\<open>UnmarshalText\<close>; of an input of any other length it
  fails with \<^verbatim>\<open>errSize\<close> and leaves the receiver as it was. The input is a byte slice
  or a string.
\<close>

theorem scan_adapter:
  "Scan i SrcNil = Returned (Nil_ksuid, None) \<and>
   (length b0 = 0 \<longrightarrow> Scan i (SrcBytes b0) = Returned (Nil_ksuid, None)) \<and>
   (length s0 = 0 \<longrightarrow> Scan i (SrcString s0) = Returned (Nil_ksuid, None)) \<and>
   (length b1 = 20 \<longrightarrow> Scan i (SrcBytes b1) = Returned (UnmarshalBinary i b1)) \<and>
   (length s1 = 20 \<longrightarrow> Scan i (SrcString s1) = Returned (UnmarshalBinary i (bytes_of_string s1))) \<and>
   (length b2 = 27 \<longrightarrow> Scan i (SrcBytes b2) = UnmarshalText i b2) \<and>
   (length s2 = 27 \<longrightarrow> Scan i (SrcString s2) = UnmarshalText i (bytes_of_string s2)) \<and>
   (length b3 \<notin> {0, 20, 27} \<longrightarrow> Scan i (SrcBytes b3) = Returned (i, Some errSize)) \<and>
   (length s3 \<notin> {0, 20, 27} \<longrightarrow> Scan i (SrcString s3) = Returned (i, Some errSize))"
  by (simp add: scan_def bytes_of_string_def ksuid_sizes)

theorem scan_adapter_witness:
  "length ([]::byte list) = 0 \<and> Scan Nil_ksuid (SrcBytes []) = Returned (Nil_ksuid, None) \<and>
   length '''' = 0 \<and> Scan Nil_ksuid (SrcString '''') = Returned (Nil_ksuid, None) \<and>
   length (replicate 20 (9::byte)) = 20 \<and>
   Scan Nil_ksuid (SrcBytes (replicate 20 9)) = Returned (replicate 20 9, None) \<and>
   length ''abcdefghijklmnopqrst'' = 20 \<and>
   Scan Nil_ksuid (SrcString ''abcdefghijklmnopqrst'')
     = Returned (UnmarshalBinary Nil_ksuid (bytes_of_string ''abcdefghijklmnopqrst'')) \<and>
   length (replicate 27 (48::byte)) = 27 \<and>
   Scan Nil_ksuid (SrcBytes (replicate 27 48)) = UnmarshalText Nil_ksuid (replicate 27 48) \<and>
   length ''0ujtsYcgvSTl8PAuAdqWYSMnLOv'' = 27 \<and>
   Scan Nil_ksuid (SrcString ''0ujtsYcgvSTl8PAuAdqWYSMnLOv'')
     = UnmarshalText Nil_ksuid (bytes_of_string ''0ujtsYcgvSTl8PAuAdqWYSMnLOv'') \<and>
   length [1::byte, 2, 3] \<notin> {0, 20, 27} \<and>
   Scan Nil_ksuid (SrcBytes [1, 2, 3]) = Returned (Nil_ksuid, Some errSize) \<and>
   length ''short'' \<notin> {0, 20, 27} \<and>
   Scan Nil_ksuid (SrcString ''short'') = Returned (Nil_ksuid, Some errSize)"
  using scan_adapter [of Nil_ksuid "[]" "''''" "replicate 20 9" "''abcdefghijklmnopqrst''"
      "replicate 27 48" "''0ujtsYcgvSTl8PAuAdqWYSMnLOv''" "[1, 2, 3]" "''short''"]
  by (simp add: UnmarshalBinary_def FromBytes_ok ksuid_sizes)

section \<open>Generation\<close>

text \<open>
  C9. When \<^verbatim>\<open>io.ReadFull\<close> on the entropy source fails with an error, \<^verbatim>\<open>NewRandom\<close>
  returns \<^verbatim>\<open>Nil\<close> with that error, and \<^verbatim>\<open>New\<close> panics.
\<close>

theorem entropy_failure:
  assumes "snd (fst (io_ReadFull (rander w) (pool_buffer w))) = Some e"
  shows "fst (NewRandom w) = (Nil_ksuid, Some (errIO e)) \<and> fst (New w) = Panicked"
  using assms
  by (auto simp: NewRandom_def New_def Let_def split: prod.splits option.splits)

theorem entropy_failure_witness:
  "snd (fst (io_ReadFull (rander \<lparr>rander = Reader [1, 2, 3] EOF,
       now = \<lparr>seconds = 1500000000, nanos = 0\<rparr>, pool_buffer = replicate 16 0\<rparr>)
     (pool_buffer \<lparr>rander = Reader [1, 2, 3] EOF,
       now = \<lparr>seconds = 1500000000, nanos = 0\<rparr>, pool_buffer = replicate 16 0\<rparr>)))
     = Some ErrUnexpectedEOF \<and>
   fst (NewRandom \<lparr>rander = Reader [1, 2, 3] EOF,
       now = \<lparr>seconds = 1500000000, nanos = 0\<rparr>, pool_buffer = replicate 16 0\<rparr>)
     = (Nil_ksuid, Some (errIO ErrUnexpectedEOF)) \<and>
   fst (New \<lparr>rander = Reader [1, 2, 3] EOF,
       now = \<lparr>seconds = 1500000000, nanos = 0\<rparr>, pool_buffer = replicate 16 0\<rparr>) = Panicked"
proof -
  have h: "snd (fst (io_ReadFull (rander \<lparr>rander = Reader [1, 2, 3] EOF,
       now = \<lparr>seconds = 1500000000, nanos = 0\<rparr>, pool_buffer = replicate 16 0\<rparr>)
     (pool_buffer \<lparr>rander = Reader [1, 2, 3] EOF,
       now = \<lparr>seconds = 1500000000, nanos = 0\<rparr>, pool_buffer = replicate 16 0\<rparr>)))
     = Some ErrUnexpectedEOF"
    by (simp add: io_ReadFull_def)
  show ?thesis
    using entropy_failure [OF h] h by blast
qed

section \<open>Radix conversion\<close>

text \<open>
  For a base of at least 2: the digits of a number give the number back, a number below
  \<open>base ^ k\<close> has at most \<open>k\<close> digits, and a string of \<open>k\<close> digits is the padded
  digit string of its value. Two digit strings of the same length compare like their
  values.
\<close>

declare radix_digits.simps [simp del]

lemma foldl_radix:
  "foldl (\<lambda>acc d. acc * base + d) a ds = a * base ^ length ds + radix_value base ds"
  unfolding radix_value_def
proof (induction ds rule: rev_induct)
  case Nil
  show ?case by simp
next
  case (snoc d ds)
  have "foldl (\<lambda>acc d. acc * base + d) a (ds @ [d])
      = foldl (\<lambda>acc d. acc * base + d) a ds * base + d"
    by simp
  also have "\<dots> = (a * base ^ length ds + foldl (\<lambda>acc d. acc * base + d) 0 ds) * base + d"
    by (simp only: snoc.IH)
  also have "\<dots> = a * base ^ length (ds @ [d]) + (foldl (\<lambda>acc d. acc * base + d) 0 ds * base + d)"
    by (simp add: add_mult_distrib)
  finally show ?case
    by simp
qed

lemma radix_value_Nil [simp]: "radix_value base [] = 0"
  by (simp add: radix_value_def)

lemma radix_value_snoc: "radix_value base (ds @ [d]) = radix_value base ds * base + d"
  by (simp add: radix_value_def)

lemma radix_value_Cons:
  "radix_value base (d # ds) = d * base ^ length ds + radix_value base ds"
proof -
  have "radix_value base (d # ds) = foldl (\<lambda>acc d. acc * base + d) d ds"
    by (simp add: radix_value_def)
  then show ?thesis
    by (simp only: foldl_radix)
qed

lemma radix_value_replicate_0 [simp]: "radix_value base (replicate m 0) = 0"
  by (induction m) (simp_all add: radix_value_Cons)

lemma radix_value_pad: "radix_value base (replicate m 0 @ ds) = radix_value base ds"
  by (induction m) (simp_all add: radix_value_Cons)

lemma radix_digits_0 [simp]: "radix_digits base 0 = []"
  by (simp add: radix_digits.simps)

lemma radix_digits_step:
  "2 \<le> base \<Longrightarrow> 0 < n \<Longrightarrow> radix_digits base n = n mod base # radix_digits base (n div base)"
  by (subst radix_digits.simps) simp

lemma radix_value_digits:
  "2 \<le> base \<Longrightarrow> radix_value base (rev (radix_digits base n)) = n"
proof (induction base n rule: radix_digits.induct)
  case (1 base n)
  show ?case
  proof (cases "n = 0")
    case True
    then show ?thesis by simp
  next
    case False
    with 1 have "radix_value base (rev (radix_digits base (n div base))) = n div base"
      by simp
    with False 1(2) show ?thesis
      by (simp add: radix_digits_step radix_value_snoc)
  qed
qed

lemma radix_digits_less:
  "2 \<le> base \<Longrightarrow> d \<in> set (radix_digits base n) \<Longrightarrow> d < base"
proof (induction base n rule: radix_digits.induct)
  case (1 base n)
  show ?case
  proof (cases "n = 0")
    case True
    with 1(3) show ?thesis by simp
  next
    case False
    with 1 show ?thesis
      by (auto simp: radix_digits_step)
  qed
qed

lemma length_radix_digits:
  "2 \<le> base \<Longrightarrow> n < base ^ k \<Longrightarrow> length (radix_digits base n) \<le> k"
proof (induction k arbitrary: n)
  case 0
  then show ?case by simp
next
  case (Suc k)
  show ?case
  proof (cases "n = 0")
    case True
    then show ?thesis by simp
  next
    case False
    from Suc.prems have "n div base < base ^ k"
      by (simp add: less_mult_imp_div_less mult.commute)
    with Suc.IH Suc.prems(1) have "length (radix_digits base (n div base)) \<le> k"
      by simp
    with False Suc.prems(1) show ?thesis
      by (simp add: radix_digits_step)
  qed
qed

lemma radix_value_less:
  "2 \<le> base \<Longrightarrow> \<forall>d \<in> set ds. d < base \<Longrightarrow> radix_value base ds < base ^ length ds"
proof (induction ds rule: rev_induct)
  case Nil
  show ?case by simp
next
  case (snoc d ds)
  then have v: "radix_value base ds < base ^ length ds" and d: "d < base"
    by simp_all
  from v have "radix_value base ds + 1 \<le> base ^ length ds"
    by simp
  then have le: "(radix_value base ds + 1) * base \<le> base ^ length ds * base"
    by (rule mult_le_mono1)
  have "radix_value base ds * base + d < (radix_value base ds + 1) * base"
    using d by simp
  also note le
  finally show ?case
    by (simp add: radix_value_snoc mult.commute)
qed

lemma radix_padded_canonical:
  "2 \<le> base \<Longrightarrow> \<forall>d \<in> set ds. d < base \<Longrightarrow>
   radix_padded base (length ds) (radix_value base ds) = ds"
proof (induction ds rule: rev_induct)
  case Nil
  show ?case by (simp add: radix_padded_def)
next
  case (snoc d ds)
  then have IH: "radix_padded base (length ds) (radix_value base ds) = ds" and d: "d < base"
    by simp_all
  let ?v = "radix_value base ds"
  show ?case
  proof (cases "?v * base + d = 0")
    case True
    then have z: "?v = 0" "d = 0" using snoc.prems(1) by auto
    with IH have "ds = replicate (length ds) 0"
      by (simp add: radix_padded_def)
    then have "ds @ [0] = replicate (Suc (length ds)) 0"
      by (metis replicate_Suc replicate_append_same)
    moreover have "radix_padded base (length (ds @ [d])) (radix_value base (ds @ [d]))
        = replicate (Suc (length ds)) 0"
      unfolding radix_value_snoc True by (simp add: radix_padded_def)
    ultimately show ?thesis
      using z by simp
  next
    case False
    have "(?v * base + d) mod base = d" "(?v * base + d) div base = ?v"
      using d by simp_all
    with False snoc.prems(1)
    have "radix_digits base (?v * base + d) = d # radix_digits base ?v"
      by (simp add: radix_digits_step)
    with IH show ?thesis
      by (simp add: radix_padded_def radix_value_snoc)
  qed
qed

lemma length_radix_padded:
  "2 \<le> base \<Longrightarrow> n < base ^ k \<Longrightarrow> length (radix_padded base k n) = k"
  using length_radix_digits [of base n k] by (simp add: radix_padded_def)

lemma radix_value_padded:
  "2 \<le> base \<Longrightarrow> radix_value base (radix_padded base k n) = n"
  by (simp add: radix_padded_def radix_value_pad radix_value_digits)

lemma radix_padded_less:
  "2 \<le> base \<Longrightarrow> d \<in> set (radix_padded base k n) \<Longrightarrow> d < base"
  by (auto simp: radix_padded_def dest: radix_digits_less)


lemma bytes_Compare_unat:
  "bytes_Compare xs ys = nat_Compare (map unat xs) (map unat ys)"
  by (induction xs ys rule: bytes_Compare.induct) (simp_all add: word_less_nat_alt)

lemma nat_Compare_map:
  assumes "\<And>d e. d < m \<Longrightarrow> e < m \<Longrightarrow> d < e \<Longrightarrow> f d < f e"
  shows "\<forall>d \<in> set xs. d < m \<Longrightarrow> \<forall>d \<in> set ys. d < m \<Longrightarrow>
    nat_Compare (map f xs) (map f ys) = nat_Compare xs ys"
proof (induction xs ys rule: nat_Compare.induct)
  case (4 x xs y ys)
  then have x: "x < m" and y: "y < m" by simp_all
  consider "x < y" | "y < x" | "x = y" by linarith
  then show ?case
  proof cases
    case 1
    with assms [OF x y] show ?thesis by simp
  next
    case 2
    with assms [OF y x] have "f y < f x" by simp
    with 2 show ?thesis by simp
  next
    case 3
    with 4 show ?thesis by simp
  qed
qed simp_all

lemma nat_Compare_value:
  assumes "2 \<le> base"
  shows "length xs = length ys \<Longrightarrow> \<forall>d \<in> set xs. d < base \<Longrightarrow> \<forall>d \<in> set ys. d < base \<Longrightarrow>
    nat_Compare xs ys =
      (if radix_value base xs < radix_value base ys then - 1
       else if radix_value base ys < radix_value base xs then 1 else 0)"
proof (induction xs ys rule: list_induct2)
  case Nil
  show ?case by simp
next
  case (Cons x xs y ys)
  let ?B = "base ^ length xs"
  have vx: "radix_value base xs < ?B"
    using Cons.prems(1) by (intro radix_value_less [OF assms]) simp
  have vy: "radix_value base ys < ?B"
    using Cons.prems(2) Cons.hyps by (metis radix_value_less [OF assms] list.set_intros(2))
  have lt: "a * ?B + u < b * ?B + v" if "a < b" "u < ?B" for a b u v :: nat
  proof -
    from that(1) have "(a + 1) * ?B \<le> b * ?B"
      by (intro mult_le_mono1) simp
    with that(2) show ?thesis by (simp add: add_mult_distrib)
  qed
  consider "x < y" | "y < x" | "x = y" by linarith
  then show ?case
  proof cases
    case 1
    from lt [OF 1 vx, of "radix_value base ys"] 1 show ?thesis
      by (simp add: radix_value_Cons Cons.hyps)
  next
    case 2
    from lt [OF 2 vy, of "radix_value base xs"] 2 show ?thesis
      by (simp add: radix_value_Cons Cons.hyps)
  next
    case 3
    with Cons show ?thesis
      by (simp add: radix_value_Cons)
  qed
qed

section \<open>The base-62 codec\<close>

subsection \<open>Bytes and characters\<close>

text \<open>The conversions between strings and byte slices are inverse to each other.\<close>

lemma unat_byte_of_char: "unat (byte_of_char c) = of_char c"
proof -
  have "byte_of_char c = of_nat (of_char c)"
    by (simp add: byte_of_char_def of_nat_of_char)
  then have "unat (byte_of_char c) = (of_char c :: nat) mod 2 ^ 8"
    by (simp only: unat_of_nat) simp
  then show ?thesis
    using nat_of_char_less_256 [of c] by simp
qed

lemma char_of_byte_of_char [simp]: "char_of_byte (byte_of_char c) = c"
  by (simp add: char_of_byte_def unat_byte_of_char)

lemma byte_of_char_of_byte [simp]: "byte_of_char (char_of_byte b) = b"
proof -
  have "unat b < 256"
    using unsigned_less [of b, where 'a = nat] by simp
  then have "(of_char (char_of (unat b)) :: nat) = unat b"
    by (simp add: of_char_of)
  moreover have "byte_of_char (char_of_byte b) = of_nat (of_char (char_of (unat b)))"
    unfolding byte_of_char_def char_of_byte_def by (rule of_nat_of_char [symmetric])
  ultimately show ?thesis
    by simp
qed

lemma bytes_of_string_of_bytes [simp]: "bytes_of_string (string_of_bytes bs) = bs"
  by (simp add: bytes_of_string_def string_of_bytes_def map_idI)

lemma string_of_bytes_of_string [simp]: "string_of_bytes (bytes_of_string s) = s"
  by (simp add: bytes_of_string_def string_of_bytes_def map_idI)

lemma length_string_of_bytes [simp]: "length (string_of_bytes bs) = length bs"
  by (simp add: string_of_bytes_def)

lemma length_bytes_of_string [simp]: "length (bytes_of_string s) = length s"
  by (simp add: bytes_of_string_def)

subsection \<open>The alphabet\<close>

lemma index_of_Some:
  "index_of c xs = Some d \<Longrightarrow> d < length xs \<and> xs ! d = c"
  by (induction xs arbitrary: d) (auto split: if_splits)

lemma index_of_nth:
  "distinct xs \<Longrightarrow> d < length xs \<Longrightarrow> index_of (xs ! d) xs = Some d"
proof (induction xs arbitrary: d)
  case Nil
  then show ?case by simp
next
  case (Cons x xs)
  show ?case
  proof (cases d)
    case 0
    then show ?thesis by simp
  next
    case (Suc e)
    with Cons.prems have "xs ! e \<in> set xs" "x \<notin> set xs"
      by simp_all
    then have "x \<noteq> xs ! e" by blast
    with Suc Cons show ?thesis by simp
  qed
qed

lemma index_of_mem: "c \<in> set xs \<Longrightarrow> \<exists>d. index_of c xs = Some d"
  by (induction xs) auto

lemma length_base62Characters: "length base62Characters = 62"
  by (simp add: base62Characters_def)

lemma distinct_base62Characters: "distinct base62Characters"
  by (simp add: base62Characters_def)

lemma base62Value_digit: "d < 62 \<Longrightarrow> base62Value (base62_digit d) = Some d"
  by (simp add: base62Value_def base62_digit_def index_of_nth distinct_base62Characters
      length_base62Characters)

lemma base62Value_Some:
  "base62Value b = Some d \<Longrightarrow> d < 62 \<and> base62_digit d = b"
proof -
  assume "base62Value b = Some d"
  then have "d < length base62Characters \<and> base62Characters ! d = char_of_byte b"
    unfolding base62Value_def by (rule index_of_Some)
  then show ?thesis
    by (simp add: base62_digit_def length_base62Characters)
qed

lemma base62Values_digits:
  "\<forall>d \<in> set ds. d < 62 \<Longrightarrow> base62Values (map base62_digit ds) = Some ds"
  by (induction ds) (simp_all add: base62Value_digit)

lemma base62Values_Some:
  "base62Values bs = Some ds \<Longrightarrow>
   length ds = length bs \<and> (\<forall>d \<in> set ds. d < 62) \<and> map base62_digit ds = bs"
proof (induction bs arbitrary: ds)
  case Nil
  then show ?case by simp
next
  case (Cons b bs)
  from Cons.prems obtain d ds' where d: "base62Value b = Some d"
    and ds': "base62Values bs = Some ds'" and ds: "ds = d # ds'"
    by (auto split: option.splits)
  from Cons.IH [OF ds'] base62Value_Some [OF d] ds show ?case
    by simp
qed

lemma base62Value_defined:
  assumes "c \<in> set base62Characters"
  shows "\<exists>d. base62Value (byte_of_char c) = Some d"
  unfolding base62Value_def char_of_byte_of_char using assms by (rule index_of_mem)

lemma base62Values_alphabet:
  "set s \<subseteq> set base62Characters \<Longrightarrow> \<exists>ds. base62Values (bytes_of_string s) = Some ds"
proof (induction s)
  case Nil
  show ?case by (simp add: bytes_of_string_def)
next
  case (Cons c s)
  from Cons.prems have "c \<in> set base62Characters"
    by simp
  then obtain d where d: "base62Value (byte_of_char c) = Some d"
    using base62Value_defined by blast
  from Cons.prems have "set s \<subseteq> set base62Characters"
    by simp
  then obtain ds where ds: "base62Values (bytes_of_string s) = Some ds"
    using Cons.IH by blast
  have "base62Values (bytes_of_string (c # s)) = Some (d # ds)"
    using d ds by (simp add: bytes_of_string_def)
  then show ?case ..
qed

text \<open>
  The byte codes of the alphabet: the digits, the upper-case letters and the lower-case
  letters of ASCII, three rising ranges.
\<close>

lemma base62Characters_codes:
  "map (of_char :: char \<Rightarrow> nat) base62Characters = [48..<58] @ [65..<91] @ [97..<123]"
  by (simp add: base62Characters_def upt_rec)

lemma sorted_base62Characters:
  "sorted_wrt (<) (map (of_char :: char \<Rightarrow> nat) base62Characters)"
proof -
  have "x < y" if "x \<in> set [48..<58]" "y \<in> set ([65..<91] @ [97..<123])" for x y :: nat
    using that by (simp only: set_upt set_append) auto
  moreover have "x < y" if "x \<in> set [65..<91]" "y \<in> set [97..<123]" for x y :: nat
    using that by (simp only: set_upt) auto
  ultimately show ?thesis
    unfolding base62Characters_codes
    by (simp only: sorted_wrt_append sorted_wrt_upt) blast
qed

lemma base62_digit_mono:
  assumes "d < e" "e < 62"
  shows "unat (base62_digit d) < unat (base62_digit e)"
proof -
  let ?cs = "map (of_char :: char \<Rightarrow> nat) base62Characters"
  have "e < length ?cs"
    using assms(2) by (simp add: length_base62Characters)
  with sorted_base62Characters assms(1) have "?cs ! d < ?cs ! e"
    by (rule sorted_wrt_nth_less)
  then show ?thesis
    using assms by (simp add: base62_digit_def unat_byte_of_char length_base62Characters)
qed

subsection \<open>What Append and Parse compute\<close>

text \<open>
  The two copies by which \<^verbatim>\<open>Append\<close> moves the digits to the right and fills the gap
  with \<open>0\<close> characters give the padded digit string; the two copies of \<^verbatim>\<open>Parse\<close>
  do the same with the decoded bytes and zero bytes.
\<close>

lemma pad_left_by_copy:
  fixes b e :: "'a list"
  assumes "0 < pad"
  shows "copy_at (copy_at (b @ e @ replicate pad z) (length b + pad)
            (drop (length b) (b @ e @ replicate pad z)))
          (length b) (replicate pad z)
         = b @ replicate pad z @ e"
  by (simp add: copy_at_def go_copy_def)

lemma base62_digit_0: "base62_digit 0 = byte_of_char CHR ''0''"
  by (simp add: base62_digit_def base62Characters_def)

lemma unat_byte_less: "unat (w :: byte) < 256"
  using unsigned_less [of w, where 'a = nat] by simp

lemma bytes_value_less:
  fixes i :: "byte list"
  assumes "length i = byteLength"
  shows "radix_value 256 (map unat i) < 256 ^ 20"
proof -
  have "\<forall>d \<in> set (map unat i). d < 256"
    by (auto simp: unat_byte_less)
  then have "radix_value 256 (map unat i) < 256 ^ length (map unat i)"
    by (intro radix_value_less) simp_all
  with assms show ?thesis
    by (simp add: ksuid_sizes)
qed

lemma pow_256_20_less: "(256::nat) ^ 20 < 62 ^ 27"
  by simp

lemma Append_eq:
  assumes "n < 62 ^ 27" and n: "n = radix_value 256 (map unat i)"
  shows "Append i b = b @ map base62_digit (radix_padded 62 27 n)"
proof -
  define e where "e = map base62_digit (rev (radix_digits 62 n))"
  define pad where "pad = 27 - length e"
  define z where "z = base62_digit 0"
  have le: "length e \<le> 27"
    using length_radix_digits [of 62 n 27] assms(1) by (simp add: e_def)
  have b1: "appendEncodeBase62 b i = b @ e"
    by (simp add: appendEncodeBase62_def e_def n base62_digit_def)
  have padded: "map base62_digit (radix_padded 62 27 n) = replicate pad z @ e"
    by (simp add: radix_padded_def e_def pad_def z_def)
  have pad: "int stringEncodedLength - (int (length (b @ e)) - int (length b)) = int pad"
    using le by (simp add: pad_def stringEncodedLength_def)
  have tk: "take pad zeroes = replicate pad z"
    by (simp add: zeroes_def base62_digit_0 pad_def z_def)
  show ?thesis
  proof (cases "0 < pad")
    case True
    have "Append i b =
      copy_at (copy_at ((b @ e) @ take pad zeroes) (length b + pad)
          (drop (length b) ((b @ e) @ take pad zeroes)))
        (length b) (take pad zeroes)"
      unfolding Append_def b1 Let_def pad using True by simp
    also have "\<dots> = copy_at (copy_at (b @ e @ replicate pad z) (length b + pad)
          (drop (length b) (b @ e @ replicate pad z)))
        (length b) (replicate pad z)"
      by (simp only: tk append_assoc)
    also have "\<dots> = b @ replicate pad z @ e"
      using True by (rule pad_left_by_copy)
    finally show ?thesis
      by (simp only: padded)
  next
    case False
    then show ?thesis
      unfolding Append_def b1 Let_def pad padded by simp
  qed
qed

lemma pad_bytes_by_copy:
  fixes d :: "'a list"
  assumes "0 < pad" 
  shows "go_copy (copy_at (d @ replicate pad z) pad (d @ replicate pad z)) (replicate pad z)
         = replicate pad z @ d"
  by (simp add: copy_at_def go_copy_def)

lemma Parse_eq:
  assumes "length s = stringEncodedLength"
    and "base62Values (bytes_of_string s) = Some ds"
    and "radix_value 62 ds < 256 ^ 20"
  shows "Parse s = Returned (map of_nat (radix_padded 256 20 (radix_value 62 ds)), None)"
proof -
  define d :: "byte list" where "d = map of_nat (rev (radix_digits 256 (radix_value 62 ds)))"
  define pad where "pad = byteLength - length d"
  have le: "length d \<le> byteLength"
    using length_radix_digits [of 256 "radix_value 62 ds" 20] assms(3)
    by (simp add: d_def ksuid_sizes)
  have src: "go_copy (replicate stringEncodedLength 0) (bytes_of_string s) = bytes_of_string s"
    using assms(1) by simp
  have dec: "appendDecodeBase62 [] (bytes_of_string s) = Decoded d"
    by (simp add: appendDecodeBase62_def assms(2) d_def)
  have dst1: "append_in_place (replicate byteLength 0) d = d @ replicate pad 0"
    using le by (simp add: append_in_place_def go_copy_def pad_def)
  have pad: "int byteLength - int (length d) = int pad"
    using le by (simp add: pad_def)
  have tk: "min pad byteLength = pad"
    by (simp add: pad_def)
  have dst3: "(if 0 < pad
      then go_copy (copy_at (d @ replicate pad 0) pad (d @ replicate pad 0)) (replicate pad 0)
      else d @ replicate pad 0) = replicate pad 0 @ d"
    by (simp add: pad_bytes_by_copy)
  have "Parse s = Returned (FromBytes (if 0 < pad
      then go_copy (copy_at (d @ replicate pad 0) pad (d @ replicate pad 0)) (replicate pad 0)
      else d @ replicate pad 0))"
    using assms(1) by (simp add: Parse_def Parse_with_def src dec Let_def dst1 pad tk)
  also have "\<dots> = Returned (replicate pad 0 @ d, None)"
    unfolding dst3 using le by (simp add: FromBytes_ok pad_def)
  also have "replicate pad 0 @ d = map of_nat (radix_padded 256 20 (radix_value 62 ds))"
    by (simp add: radix_padded_def d_def pad_def ksuid_sizes)
  finally show ?thesis .
qed

lemma Parse_invalid:
  assumes "length s = stringEncodedLength" and "base62Values (bytes_of_string s) = None"
  shows "Parse s = Panicked"
  using assms by (simp add: Parse_def Parse_with_def appendDecodeBase62_def)

lemma String_eq:
  assumes "length k = byteLength"
  shows "String k = string_of_bytes (map base62_digit
           (radix_padded 62 27 (radix_value 256 (map unat k))))"
proof -
  have "radix_value 256 (map unat k) < 62 ^ 27"
    using bytes_value_less [OF assms] pow_256_20_less by (rule less_trans)
  then show ?thesis
    by (simp add: String_def Append_eq)
qed

lemma replicate_20:
  "replicate 20 x = [x, x, x, x, x, x, x, x, x, x, x, x, x, x, x, x, x, x, x, x]"
  by (simp add: numeral_eq_Suc)

lemma replicate_27:
  "replicate 27 x =
     [x, x, x, x, x, x, x, x, x, x, x, x, x, x, x, x, x, x, x, x, x, x, x, x, x, x, x]"
  by (simp add: numeral_eq_Suc)

lemma String_max: "String (replicate 20 255) = maxStringEncoded"
proof -
  have len: "length (replicate 20 (255::byte)) = byteLength"
    by (simp add: ksuid_sizes)
  have v: "radix_value 256 (map unat (replicate 20 (255::byte)))
      = 1461501637330902918203684832716283019655932542975"
    by (simp add: radix_value_def replicate_20)
  have p: "radix_padded 62 27 1461501637330902918203684832716283019655932542975
      = [36, 32, 42, 14, 25, 29, 47, 1, 55, 48, 40, 37, 41, 54, 26, 61, 15, 25, 4, 37, 59, 58,
         42, 60, 8, 0, 31]"
    by (simp add: radix_padded_def radix_digits.simps)
  show ?thesis
    unfolding String_eq [OF len] v p
    by (simp add: base62_digit_def base62Characters_def string_of_bytes_def
        maxStringEncoded_def)
qed

lemma map_of_nat_unat [simp]: "map (of_nat \<circ> unat) (v :: byte list) = v"
  by (simp add: map_idI)

lemma map_unat_of_nat:
  "\<forall>d \<in> set ds. d < 256 \<Longrightarrow> map unat (map of_nat ds :: byte list) = ds"
proof (induction ds)
  case Nil
  show ?case by simp
next
  case (Cons d ds)
  then have "d < 256" by simp
  then have "unat (of_nat d :: byte) = d"
    by (simp add: unat_of_nat)
  with Cons show ?case by simp
qed

lemma Parse_String:
  assumes "length v = byteLength"
  shows "Parse (String v) = Returned (v, None)"
proof -
  define n where "n = radix_value 256 (map unat v)"
  define p where "p = radix_padded 62 27 n"
  have n: "n < 256 ^ 20"
    unfolding n_def using assms by (rule bytes_value_less)
  then have n62: "n < 62 ^ 27"
    using pow_256_20_less by (rule less_trans)
  have s: "String v = string_of_bytes (map base62_digit p)"
    unfolding p_def n_def using assms by (rule String_eq)
  have "length p = 27"
    unfolding p_def using n62 by (intro length_radix_padded) simp_all
  then have len: "length (String v) = stringEncodedLength"
    by (simp add: s stringEncodedLength_def)
  have "\<forall>d \<in> set p. d < 62"
    unfolding p_def using radix_padded_less [of 62] by simp
  then have vals: "base62Values (bytes_of_string (String v)) = Some p"
    by (simp add: s base62Values_digits)
  have val: "radix_value 62 p = n"
    unfolding p_def by (rule radix_value_padded) simp
  have "\<forall>d \<in> set (map unat v). d < 256"
    by (auto simp: unat_byte_less)
  then have "radix_padded 256 (length (map unat v)) (radix_value 256 (map unat v)) = map unat v"
    by (intro radix_padded_canonical) simp_all
  then have "radix_padded 256 20 n = map unat v"
    using assms by (simp add: n_def ksuid_sizes)
  then show ?thesis
    using Parse_eq [OF len vals] n by (simp add: val)
qed

lemma max_digits:
  "\<exists>p. bytes_of_string maxStringEncoded = map base62_digit p \<and> length p = 27 \<and>
     (\<forall>d \<in> set p. d < 62) \<and> radix_value 62 p < 256 ^ 20"
proof -
  define n where "n = radix_value 256 (map unat (replicate 20 (255::byte)))"
  define p where "p = radix_padded 62 27 n"
  have len: "length (replicate 20 (255::byte)) = byteLength"
    by (simp add: ksuid_sizes)
  have n: "n < 256 ^ 20"
    unfolding n_def using len by (rule bytes_value_less)
  then have n62: "n < 62 ^ 27"
    using pow_256_20_less by (rule less_trans)
  have m: "maxStringEncoded = string_of_bytes (map base62_digit p)"
    unfolding p_def n_def String_max [symmetric] using len by (rule String_eq)
  have "bytes_of_string maxStringEncoded = map base62_digit p"
    by (subst m) simp
  moreover have "length p = 27"
    unfolding p_def using n62 by (intro length_radix_padded) simp_all
  moreover have "\<forall>d \<in> set p. d < 62"
    unfolding p_def using radix_padded_less [of 62] by simp
  moreover have "radix_value 62 p = n"
    unfolding p_def by (rule radix_value_padded) simp
  ultimately show ?thesis
    using n by blast
qed

lemma digits_Compare:
  assumes "length p = length q" "\<forall>d \<in> set p. d < 62" "\<forall>d \<in> set q. d < 62"
  shows "bytes_Compare (map base62_digit p) (map base62_digit q) =
    (if radix_value 62 p < radix_value 62 q then - 1
     else if radix_value 62 q < radix_value 62 p then 1 else 0)"
proof -
  have "bytes_Compare (map base62_digit p) (map base62_digit q)
      = nat_Compare (map (\<lambda>d. unat (base62_digit d)) p) (map (\<lambda>d. unat (base62_digit d)) q)"
    by (simp add: bytes_Compare_unat comp_def)
  also have "\<dots> = nat_Compare p q"
    using assms(2,3) by (intro nat_Compare_map [where m = 62]) (simp_all add: base62_digit_mono)
  also have "\<dots> = (if radix_value 62 p < radix_value 62 q then - 1
     else if radix_value 62 q < radix_value 62 p then 1 else 0)"
    using assms by (intro nat_Compare_value) simp_all
  finally show ?thesis .
qed

lemma String_Parse:
  assumes "length s = stringEncodedLength" "set s \<subseteq> set base62Characters"
    and "strings_Compare s maxStringEncoded \<le> 0"
  shows "\<exists>k. Parse s = Returned (k, None) \<and> String k = s"
proof -
  from assms(2) obtain ds where ds: "base62Values (bytes_of_string s) = Some ds"
    using base62Values_alphabet by blast
  then have len: "length ds = 27" and lt: "\<forall>d \<in> set ds. d < 62"
    and bs: "map base62_digit ds = bytes_of_string s"
    using base62Values_Some [OF ds] assms(1) by (simp_all add: stringEncodedLength_def)
  obtain p where p: "bytes_of_string maxStringEncoded = map base62_digit p" "length p = 27"
    "\<forall>d \<in> set p. d < 62" "radix_value 62 p < 256 ^ 20"
    using max_digits by blast
  define n where "n = radix_value 62 ds"
  have "strings_Compare s maxStringEncoded =
    (if n < radix_value 62 p then - 1 else if radix_value 62 p < n then 1 else 0)"
    unfolding strings_Compare_def p(1) bs [symmetric] n_def
    using len p(2) lt p(3) by (intro digits_Compare) simp_all
  with assms(3) have "n \<le> radix_value 62 p"
    by (simp split: if_splits)
  with p(4) have n: "n < 256 ^ 20"
    by simp
  define k :: "byte list" where "k = map of_nat (radix_padded 256 20 n)"
  have parse: "Parse s = Returned (k, None)"
    unfolding k_def n_def using assms(1) ds n [unfolded n_def] by (rule Parse_eq)
  have klen: "length k = byteLength"
    using length_radix_padded [of 256 n 20] n by (simp add: k_def ksuid_sizes)
  have "\<forall>d \<in> set (radix_padded 256 20 n). d < 256"
    using radix_padded_less [of 256] by simp
  then have "map unat k = radix_padded 256 20 n"
    unfolding k_def by (rule map_unat_of_nat)
  then have "radix_value 256 (map unat k) = n"
    by (simp add: radix_value_padded)
  then have "String k = string_of_bytes (map base62_digit (radix_padded 62 27 n))"
    using String_eq [OF klen] by simp
  also have "radix_padded 62 27 n = ds"
    using radix_padded_canonical [of 62 ds] lt len by (simp add: n_def)
  finally have "String k = s"
    by (simp add: bs)
  with parse show ?thesis
    by blast
qed

lemma Compare_String:
  assumes "length a = byteLength" "length b = byteLength"
  shows "Compare a b = strings_Compare (String a) (String b)"
proof -
  define na where "na = radix_value 256 (map unat a)"
  define nb where "nb = radix_value 256 (map unat b)"
  have lt: "na < 62 ^ 27" "nb < 62 ^ 27"
    using bytes_value_less [OF assms(1)] bytes_value_less [OF assms(2)] pow_256_20_less
    by (simp_all add: na_def nb_def)
  have cmp: "Compare a b = (if na < nb then - 1 else if nb < na then 1 else 0)"
    unfolding Compare_def bytes_Compare_unat na_def nb_def
    using assms by (intro nat_Compare_value) (auto simp: unat_byte_less)
  have "strings_Compare (String a) (String b)
      = bytes_Compare (map base62_digit (radix_padded 62 27 na))
          (map base62_digit (radix_padded 62 27 nb))"
    by (simp add: strings_Compare_def String_eq [OF assms(1)] String_eq [OF assms(2)]
        na_def nb_def)
  also have "\<dots> = (if radix_value 62 (radix_padded 62 27 na) < radix_value 62 (radix_padded 62 27 nb)
      then - 1
      else if radix_value 62 (radix_padded 62 27 nb) < radix_value 62 (radix_padded 62 27 na)
      then 1 else 0)"
    using lt radix_padded_less [of 62]
    by (intro digits_Compare) (simp_all add: length_radix_padded)
  finally show ?thesis
    by (simp add: cmp radix_value_padded)
qed

lemma String_zero: "String (replicate 20 0) = replicate 27 CHR ''0''"
proof -
  have len: "length (replicate 20 (0::byte)) = byteLength"
    by (simp add: ksuid_sizes)
  have "radix_value 256 (map unat (replicate 20 (0::byte))) = 0"
    by simp
  then have "String (replicate 20 0) = string_of_bytes (map base62_digit (radix_padded 62 27 0))"
    using String_eq [OF len] by simp
  then show ?thesis
    by (simp add: radix_padded_def base62_digit_0 string_of_bytes_def)
qed

lemma length_String:
  assumes "length k = byteLength"
  shows "length (String k) = 27"
proof -
  have "radix_value 256 (map unat k) < 62 ^ 27"
    using bytes_value_less [OF assms] pow_256_20_less by (rule less_trans)
  then show ?thesis
    by (simp add: String_eq [OF assms] length_radix_padded)
qed

lemma Parse_length:
  assumes "Parse s = Returned (k, None)"
  shows "length k = byteLength"
proof (cases "length s = stringEncodedLength")
  case True
  from Parse_with_27 [OF True, of appendDecodeBase62] assms show ?thesis
    by (auto simp: Parse_def)
next
  case False
  with assms show ?thesis
    by (simp add: Parse_def Parse_with_def)
qed

section \<open>Round trip, order and width of the text form\<close>

lemma max_value:
  "radix_value 256 (map unat (replicate 20 (255::byte)))
     = 1461501637330902918203684832716283019655932542975"
  by (simp add: radix_value_def replicate_20)

lemma Compare_value:
  assumes "length a = byteLength" "length b = byteLength"
  shows "Compare a b =
    (if radix_value 256 (map unat a) < radix_value 256 (map unat b) then - 1
     else if radix_value 256 (map unat b) < radix_value 256 (map unat a) then 1 else 0)"
  unfolding Compare_def bytes_Compare_unat
  using assms by (intro nat_Compare_value) (auto simp: unat_byte_less)

text \<open>
  No identifier has a text form above \<^verbatim>\<open>maxStringEncoded\<close>: a 27-character string
  above it is the text form of no 20 bytes, whatever \<^verbatim>\<open>Parse\<close> returns for it.
\<close>

lemma String_le_max:
  assumes "length k = byteLength"
  shows "strings_Compare (String k) maxStringEncoded \<le> 0"
proof -
  have len: "length (replicate 20 (255::byte)) = byteLength"
    by (simp add: ksuid_sizes)
  have "radix_value 256 (map unat k) < 256 ^ 20"
    using assms by (rule bytes_value_less)
  then have "Compare k (replicate 20 255) \<le> 0"
    unfolding Compare_value [OF assms len] max_value by simp
  then show ?thesis
    unfolding Compare_String [OF assms len] String_max .
qed

lemma z27_above_max:
  "strings_Compare ''zzzzzzzzzzzzzzzzzzzzzzzzzzz'' maxStringEncoded = 1"
  by (simp add: strings_Compare_def bytes_of_string_def maxStringEncoded_def byte_of_char_def)

lemma z27_not_encoded:
  assumes "length k = byteLength"
  shows "String k \<noteq> ''zzzzzzzzzzzzzzzzzzzzzzzzzzz''"
  using String_le_max [OF assms] z27_above_max by auto

lemma Parse_max:
  "Parse ''aWgEPTl1tmebfsQzFP4bxwgy80V'' = Returned (replicate 20 255, None)"
proof -
  have len: "length (replicate 20 (255::byte)) = byteLength"
    by (simp add: ksuid_sizes)
  show ?thesis
    using Parse_String [OF len] by (simp add: String_max maxStringEncoded_def)
qed

text \<open>
  C1, as amended. For every 20-byte value \<open>v\<close>, \<^verbatim>\<open>Parse\<close> of the \<^verbatim>\<open>String\<close> of
  \<open>v\<close> returns \<open>v\<close>. For every string \<open>s\<close> of 27 characters of the base-62 alphabet
  that is not above \<^verbatim>\<open>maxStringEncoded\<close> in the order of strings, \<^verbatim>\<open>Parse\<close>
  returns an identifier whose \<^verbatim>\<open>String\<close> is \<open>s\<close>.
\<close>

theorem base62_roundtrip:
  "(length v = 20 \<longrightarrow> Parse (String v) = Returned (v, None)) \<and>
   (length s = 27 \<and> set s \<subseteq> set base62Characters \<and> strings_Compare s maxStringEncoded \<le> 0
      \<longrightarrow> String_of_Parse s = Some s)"
proof -
  have "String_of_Parse s = Some s"
    if "length s = 27" "set s \<subseteq> set base62Characters" "strings_Compare s maxStringEncoded \<le> 0"
  proof -
    from that obtain k where "Parse s = Returned (k, None)" "String k = s"
      using String_Parse [of s] by (auto simp: ksuid_sizes)
    then show ?thesis
      by (simp add: String_of_Parse_def)
  qed
  then show ?thesis
    using Parse_String [of v] by (simp add: ksuid_sizes)
qed

theorem base62_roundtrip_witness:
  "length (replicate 20 (255::byte)) = 20 \<and>
   Parse (String (replicate 20 255)) = Returned (replicate 20 255, None) \<and>
   length ''aWgEPTl1tmebfsQzFP4bxwgy80V'' = 27 \<and>
   set ''aWgEPTl1tmebfsQzFP4bxwgy80V'' \<subseteq> set base62Characters \<and>
   strings_Compare ''aWgEPTl1tmebfsQzFP4bxwgy80V'' maxStringEncoded \<le> 0 \<and>
   String_of_Parse ''aWgEPTl1tmebfsQzFP4bxwgy80V'' = Some ''aWgEPTl1tmebfsQzFP4bxwgy80V''"
proof -
  have a: "set ''aWgEPTl1tmebfsQzFP4bxwgy80V'' \<subseteq> set base62Characters"
    by (simp add: base62Characters_def)
  have "bytes_Compare bs bs = 0" for bs
    by (induction bs) simp_all
  then have c: "strings_Compare ''aWgEPTl1tmebfsQzFP4bxwgy80V'' maxStringEncoded \<le> 0"
    by (simp add: strings_Compare_def maxStringEncoded_def)
  show ?thesis
    using base62_roundtrip [of "replicate 20 255" "''aWgEPTl1tmebfsQzFP4bxwgy80V''"] a c
    by simp
qed

text \<open>
  C1 as stated fails on the 27-character string of \<open>z\<close>s, which is above
  \<^verbatim>\<open>maxStringEncoded\<close>: whatever identifier \<^verbatim>\<open>Parse\<close> returns for it, the
  \<^verbatim>\<open>String\<close> of that identifier is another string.
\<close>

theorem base62_roundtrip_counterexample:
  "String_of_Parse ''zzzzzzzzzzzzzzzzzzzzzzzzzzz'' \<noteq> Some ''zzzzzzzzzzzzzzzzzzzzzzzzzzz''"
proof
  assume eq: "String_of_Parse ''zzzzzzzzzzzzzzzzzzzzzzzzzzz'' = Some ''zzzzzzzzzzzzzzzzzzzzzzzzzzz''"
  then obtain k where p: "Parse ''zzzzzzzzzzzzzzzzzzzzzzzzzzz'' = Returned (k, None)"
    and s: "String k = ''zzzzzzzzzzzzzzzzzzzzzzzzzzz''"
    by (auto simp: String_of_Parse_def split: outcome.splits option.splits)
  from p have "length k = byteLength"
    by (rule Parse_length)
  then have "String k \<noteq> ''zzzzzzzzzzzzzzzzzzzzzzzzzzz''"
    by (rule z27_not_encoded)
  with s show False
    by contradiction
qed

text \<open>
  C2. For every two identifiers, \<^verbatim>\<open>Compare\<close> is the three-way lexicographic comparison
  of their \<^verbatim>\<open>String\<close> forms; so one is at most the other byte by byte exactly when its
  string is at most the other's.
\<close>

theorem order_preservation:
  assumes "length a = 20" "length b = 20"
  shows "Compare a b = strings_Compare (String a) (String b) \<and>
    (bytes_Compare a b \<le> 0 \<longleftrightarrow> strings_Compare (String a) (String b) \<le> 0)"
  using Compare_String [of a b] assms by (simp add: ksuid_sizes Compare_def)

theorem order_preservation_witness:
  "length [0, 0, 0, 0, 0, 0, 0, 0, 0, 0, 0, 0, 0, 0, 0, 0, 0, 0, 0,
      1 :: byte] = 20 \<and>
   length (replicate 20 (255::byte)) = 20 \<and>
   Compare [0, 0, 0, 0, 0, 0, 0, 0, 0, 0, 0, 0, 0, 0, 0, 0, 0, 0, 0, 1]
     (replicate 20 255) = - 1 \<and>
   strings_Compare (String [0, 0, 0, 0, 0, 0, 0, 0, 0, 0, 0, 0, 0, 0, 0, 0, 0, 0, 0, 1])
     (String (replicate 20 255)) = - 1"
proof -
  have a: "length [0, 0, 0, 0, 0, 0, 0, 0, 0, 0, 0, 0, 0, 0, 0, 0, 0, 0, 0,
      1 :: byte] = 20"
    by simp
  have b: "length (replicate 20 (255::byte)) = 20"
    by simp
  have "Compare [0, 0, 0, 0, 0, 0, 0, 0, 0, 0, 0, 0, 0, 0, 0, 0, 0, 0, 0, 1]
      (replicate 20 255) = - 1"
    by (simp add: Compare_def replicate_20)
  with order_preservation [OF a b] show ?thesis
    by simp
qed

text \<open>
  C3. The \<^verbatim>\<open>String\<close> of every identifier has 27 characters; that of the zero
  identifier is 27 times the character \<open>0\<close>, that of the identifier of 20 bytes
  \<open>0xFF\<close> is \<^verbatim>\<open>maxStringEncoded\<close>, the string \<open>aWgEPTl1tmebfsQzFP4bxwgy80V\<close>; and an
  identifier that \<^verbatim>\<open>Parse\<close> returns without error has 20 bytes.
\<close>

theorem fixed_width:
  "(length k = 20 \<longrightarrow> length (String k) = 27) \<and>
   String (replicate 20 0) = replicate 27 CHR ''0'' \<and>
   String (replicate 20 255) = maxStringEncoded \<and>
   maxStringEncoded = ''aWgEPTl1tmebfsQzFP4bxwgy80V'' \<and>
   (Parse s = Returned (k', None) \<longrightarrow> length k' = 20)"
  using length_String [of k] String_zero String_max Parse_length [of s k']
  by (simp add: ksuid_sizes maxStringEncoded_def)

theorem fixed_width_witness:
  "length (replicate 20 (255::byte)) = 20 \<and> length (String (replicate 20 255)) = 27 \<and>
   Parse ''aWgEPTl1tmebfsQzFP4bxwgy80V'' = Returned (replicate 20 255, None) \<and>
   length (replicate 20 (255::byte)) = 20"
  using fixed_width [of "replicate 20 255" "''aWgEPTl1tmebfsQzFP4bxwgy80V''" "replicate 20 255"]
    Parse_max
  by (simp add: maxStringEncoded_def)

section \<open>Characters outside the alphabet\<close>

text \<open>
  C5, as amended. For every 27-character input string, also one with a character outside
  the base-62 alphabet, and for every decoder, \<^verbatim>\<open>Parse\<close> returns no error: the
  package has no invalid-character error, and all that \<^verbatim>\<open>Parse\<close> returns for such an
  input is a 20-byte identifier with the \<^verbatim>\<open>nil\<close> error.
\<close>

theorem parse_reports_no_character_error:
  assumes "length s = 27"
  shows "\<not> returns_error (Parse_with decoder s) \<and>
    (\<forall>r. Parse_with decoder s = Returned r \<longrightarrow> snd r = None \<and> length (fst r) = 20)"
  using Parse_with_27 [of s decoder] assms
  by (auto simp: returns_error_def ksuid_sizes)

theorem parse_reports_no_character_error_witness:
  "length ''aWgEPTl1tmebfsQzFP4bxwgy80V'' = 27 \<and>
   \<not> returns_error (Parse_with appendDecodeBase62 ''aWgEPTl1tmebfsQzFP4bxwgy80V'') \<and>
   Parse_with appendDecodeBase62 ''aWgEPTl1tmebfsQzFP4bxwgy80V''
     = Returned (replicate 20 255, None) \<and>
   snd (replicate 20 (255::byte), None :: error option) = None \<and>
   length (fst (replicate 20 (255::byte), None :: error option)) = 20"
proof -
  have len: "length ''aWgEPTl1tmebfsQzFP4bxwgy80V'' = 27"
    by simp
  have p: "Parse_with appendDecodeBase62 ''aWgEPTl1tmebfsQzFP4bxwgy80V''
      = Returned (replicate 20 255, None)"
    using Parse_max by (simp only: Parse_def)
  show ?thesis
    using parse_reports_no_character_error [OF len, of appendDecodeBase62] p by simp
qed

text \<open>
  C5 as stated fails: on a 27-character string that starts with \<open>!\<close>, \<^verbatim>\<open>Parse\<close> does
  not return an error.
\<close>

theorem parse_invalid_character_counterexample:
  "\<not> returns_error (Parse ''!00000000000000000000000000'')"
proof -
  have "length ''!00000000000000000000000000'' = stringEncodedLength"
    by (simp add: stringEncodedLength_def)
  from Parse_with_27 [OF this, of appendDecodeBase62] show ?thesis
    by (auto simp: Parse_def returns_error_def)
qed

end
